theory Spec2Isabelle
  imports Main "HOL-Library.Word" "HOL-Library.Signed_Division"
begin

section \<open>Column-sketch dictionaries (colsketch.go)\<close>

text \<open>
  The value type \<open>T\<close> of the Go source is constrained by \<open>cmp.Ordered\<close>; it is modelled
  as a type of class \<open>linorder\<close>, with \<open>cmp.Less x y\<close> read as \<open>x < y\<close> and
  \<open>cmp.Compare x y == 0\<close> read as \<open>x = y\<close>.  Go's \<open>int\<close> is modelled as \<open>int\<close>: every
  quantity of that type in the source is a length, a count or a product bounded by
  \<open>10000\<close> times a length, none of which leaves the 64-bit range for a slice that fits
  in memory.  \<open>Code\<close> and \<open>Mode\<close> are \<open>uint16\<close> in the source and 16-bit words here.
\<close>

subsection \<open>Code and Mode\<close>

type_synonym Code = "16 word"

type_synonym Mode = "16 word"

definition IsExact :: "Code \<Rightarrow> bool" where
  "IsExact c \<longleftrightarrow> c mod 2 = 0"

definition Byte :: Mode where
  "Byte = 0"

definition Word :: Mode where
  "Word = 1"

definition NumExactCodes :: "Mode \<Rightarrow> int" where
  "NumExactCodes m = (if m = Byte then 127 else if m = Word then 32767 else 0)"

definition MaxExactCode :: "Mode \<Rightarrow> Code" where
  "MaxExactCode m = (if m = Byte then 0xfe else if m = Word then 0xfffe else 0)"

definition MaxInexactCode :: "Mode \<Rightarrow> Code" where
  "MaxInexactCode m = (if m = Byte then 0xff else if m = Word then 0xffff else 0)"

subsection \<open>Run-time faults\<close>

text \<open>
  Go panics on an integer division by zero and on a slice expression whose bound is out
  of range.  Go's \<open>/\<close> on \<open>int\<close> truncates towards zero, which is \<open>sdiv\<close>.
\<close>

datatype error = DivideByZero | SliceBoundsOutOfRange

definition quo :: "int \<Rightarrow> int \<Rightarrow> error + int" where
  "quo a b = (if b = 0 then Inl DivideByZero else Inr (a sdiv b))"

subsection \<open>Dictionaries and clusters\<close>

record 'a Dict =
  mode :: Mode
  codes :: "'a list"

record 'a cluster =
  value_c :: 'a
  count_c :: int

subsection \<open>Frequency clustering\<close>

text \<open>
  The \<open>range\<close> loop of \<open>clusters\<close>: \<open>cur\<close> and \<open>cnt\<close> are the run being counted,
  \<open>clu\<close> the clusters appended so far.  After the last element the open run is appended.
\<close>

fun clusters_loop :: "'a list \<Rightarrow> 'a \<Rightarrow> int \<Rightarrow> 'a cluster list \<Rightarrow> 'a cluster list" where
  "clusters_loop [] cur cnt clu = clu @ [\<lparr>value_c = cur, count_c = cnt\<rparr>]"
| "clusters_loop (s # ss) cur cnt clu =
     (if s = cur then clusters_loop ss cur (cnt + 1) clu
      else clusters_loop ss s 1 (clu @ [\<lparr>value_c = cur, count_c = cnt\<rparr>]))"

fun clusters :: "'a list \<Rightarrow> 'a cluster list" where
  "clusters [] = []"
| "clusters (s # ss) = clusters_loop (s # ss) s 0 []"

subsection \<open>Segmenting at a fixed step\<close>

text \<open>
  The inner loop of \<open>assignCodesWithStep\<close>.  It returns \<open>lastIdx\<close> and \<open>idxWithMaxVal\<close>
  as they stand when the loop exits.  Every index read is below \<open>length clu\<close>:
  \<open>lastIdx\<close> by the loop guard, \<open>idxWithMaxVal\<close> because it starts at \<open>firstIdx\<close> and is
  only ever set to such a \<open>lastIdx\<close>.
\<close>

function segment_loop :: "int \<Rightarrow> 'a cluster list \<Rightarrow> nat \<Rightarrow> nat \<Rightarrow> int \<Rightarrow> nat \<times> nat" where
  "segment_loop codestep clu lastIdx idxWithMaxVal clusterCountSum =
     (if lastIdx < length clu \<and> clusterCountSum < codestep then
        segment_loop codestep clu (lastIdx + 1)
          (if count_c (clu ! idxWithMaxVal) < count_c (clu ! lastIdx) then lastIdx
           else idxWithMaxVal)
          (clusterCountSum + count_c (clu ! lastIdx))
      else (lastIdx, idxWithMaxVal))"
  by pat_completeness auto
termination
  by (relation "measure (\<lambda>(codestep, clu, lastIdx, idxWithMaxVal, clusterCountSum).
        length clu - lastIdx)") auto

declare segment_loop.simps [simp del]

lemma segment_loop_step:
  "lastIdx < length clu \<Longrightarrow> clusterCountSum < codestep \<Longrightarrow>
   segment_loop codestep clu lastIdx idxWithMaxVal clusterCountSum =
   segment_loop codestep clu (lastIdx + 1)
     (if count_c (clu ! idxWithMaxVal) < count_c (clu ! lastIdx) then lastIdx
      else idxWithMaxVal)
     (clusterCountSum + count_c (clu ! lastIdx))"
  by (subst segment_loop.simps) simp

lemma segment_loop_exit:
  "\<not> (lastIdx < length clu \<and> clusterCountSum < codestep) \<Longrightarrow>
   segment_loop codestep clu lastIdx idxWithMaxVal clusterCountSum = (lastIdx, idxWithMaxVal)"
  by (subst segment_loop.simps) auto

lemma segment_loop_lastIdx_ge:
  "lastIdx \<le> fst (segment_loop codestep clu lastIdx idxWithMaxVal clusterCountSum)"
proof (induction codestep clu lastIdx idxWithMaxVal clusterCountSum rule: segment_loop.induct)
  case (1 codestep clu lastIdx idxWithMaxVal clusterCountSum)
  show ?case
  proof (cases "lastIdx < length clu \<and> clusterCountSum < codestep")
    case True
    then have "lastIdx + 1 \<le> fst (segment_loop codestep clu lastIdx idxWithMaxVal clusterCountSum)"
      using "1.IH" by (simp add: segment_loop_step)
    then show ?thesis by simp
  next
    case False
    then show ?thesis
      by (simp add: segment_loop_exit)
  qed
qed

text \<open>
  The outer loop of \<open>assignCodesWithStep\<close>: one representative per segment, and the next
  segment starts at \<open>lastIdx + 1\<close>.
\<close>

function assign_loop :: "int \<Rightarrow> 'a cluster list \<Rightarrow> nat \<Rightarrow> 'a list \<Rightarrow> 'a list" where
  "assign_loop codestep clu firstIdx acc =
     (if firstIdx < length clu then
        (case segment_loop codestep clu firstIdx firstIdx 0 of
           (lastIdx, idxWithMaxVal) \<Rightarrow>
             assign_loop codestep clu (lastIdx + 1) (acc @ [value_c (clu ! idxWithMaxVal)]))
      else acc)"
  by pat_completeness auto
termination
  apply (relation "measure (\<lambda>(codestep, clu, firstIdx, acc). length clu - firstIdx)")
   apply simp
  subgoal for codestep clu firstIdx acc lastIdx idxWithMaxVal
    using segment_loop_lastIdx_ge [of firstIdx codestep clu firstIdx 0]
    by (cases "segment_loop codestep clu firstIdx firstIdx 0") auto
  done

declare assign_loop.simps [simp del]

definition assignCodesWithStep :: "int \<Rightarrow> 'a cluster list \<Rightarrow> 'a list" where
  "assignCodesWithStep codestep clu = assign_loop codestep clu 0 []"

text \<open>
  The same outer loop, recording for every segment the triple
  \<open>(firstIdx, lastIdx, idxWithMaxVal)\<close> it closes with instead of the representative.
  \<open>assign_loop_segments\<close> below shows that the representatives are exactly the cluster
  values at the recorded \<open>idxWithMaxVal\<close>.
\<close>

function segments :: "int \<Rightarrow> 'a cluster list \<Rightarrow> nat \<Rightarrow> (nat \<times> nat \<times> nat) list" where
  "segments codestep clu firstIdx =
     (if firstIdx < length clu then
        (case segment_loop codestep clu firstIdx firstIdx 0 of
           (lastIdx, idxWithMaxVal) \<Rightarrow>
             (firstIdx, lastIdx, idxWithMaxVal) # segments codestep clu (lastIdx + 1))
      else [])"
  by pat_completeness auto
termination
  apply (relation "measure (\<lambda>(codestep, clu, firstIdx). length clu - firstIdx)")
   apply simp
  subgoal for codestep clu firstIdx lastIdx idxWithMaxVal
    using segment_loop_lastIdx_ge [of firstIdx codestep clu firstIdx 0]
    by (cases "segment_loop codestep clu firstIdx firstIdx 0") auto
  done

declare segments.simps [simp del]

subsection \<open>Bias-corrected convergence\<close>

text \<open>
  The \<open>for i := 0; i < 8; i++\<close> loop of \<open>assignCodesWithMinimalStep\<close>, with the number
  of iterations still to run as the first argument.  The divisor \<open>ncodes\<close> is not zero
  here, since the division that computes the first \<open>codestep\<close> has succeeded.
  \<open>codes[:ncodes]\<close> panics for a negative \<open>ncodes\<close>.
\<close>

fun refine_loop :: "nat \<Rightarrow> int \<Rightarrow> 'a cluster list \<Rightarrow> int \<Rightarrow> 'a list \<Rightarrow> error + 'a list" where
  "refine_loop 0 ncodes clu codestep acc = Inr acc"
| "refine_loop (Suc k) ncodes clu codestep acc =
     (if int (length acc) = ncodes then Inr acc
      else if int (length acc) > ncodes then
        (if ncodes < 0 then Inl SliceBoundsOutOfRange else Inr (take (nat ncodes) acc))
      else
        (let bias = (int (length acc) * 10000) sdiv ncodes;
             codestep' = (codestep * bias) sdiv 10000;
             nxt = assignCodesWithStep codestep' clu
         in if int (length nxt) < ncodes then refine_loop k ncodes clu codestep' nxt
            else Inr acc))"

definition assignCodesWithMinimalStep :: "int \<Rightarrow> int \<Rightarrow> 'a cluster list \<Rightarrow> error + 'a list" where
  "assignCodesWithMinimalStep sampleSize ncodes clu =
     (case quo sampleSize ncodes of
        Inl e \<Rightarrow> Inl e
      | Inr codestep \<Rightarrow> refine_loop 8 ncodes clu codestep (assignCodesWithStep codestep clu))"

subsection \<open>Dictionary construction\<close>

text \<open>
  \<open>sort.Slice\<close> with \<open>cmp.Less\<close> leaves the copy sorted ascending; on a linear order the
  sorted arrangement of a sample is unique, and \<open>sort\<close> computes it.  \<open>make([]T, 1)\<close>
  holds the zero value of \<open>T\<close>, which is the parameter \<open>zero_value\<close>.
\<close>

definition NewDict :: "'a::linorder \<Rightarrow> Mode \<Rightarrow> 'a list \<Rightarrow> error + 'a Dict" where
  "NewDict zero_value m sample =
     (if length sample = 0 then Inr \<lparr>mode = m, codes = [zero_value]\<rparr>
      else
        (let sortedSample = sort sample;
             clu = clusters sortedSample;
             ncodes = NumExactCodes m
         in if int (length clu) \<le> ncodes then Inr \<lparr>mode = m, codes = map value_c clu\<rparr>
            else
              (case assignCodesWithMinimalStep (int (length sample)) ncodes clu of
                 Inl e \<Rightarrow> Inl e
               | Inr cs \<Rightarrow> Inr \<lparr>mode = m, codes = cs\<rparr>)))"

definition Len :: "'a Dict \<Rightarrow> int" where
  "Len d = int (length (codes d))"

subsection \<open>Lookup\<close>

text \<open>
  \<open>sort.Search\<close> of the Go standard library, as it is written there: a binary search
  on \<open>[0, n)\<close> that keeps \<open>f (i - 1)\<close> false and \<open>f j\<close> true.
\<close>

function search_loop :: "(nat \<Rightarrow> bool) \<Rightarrow> nat \<Rightarrow> nat \<Rightarrow> nat" where
  "search_loop f i j =
     (if i < j then
        (let h = (i + j) div 2
         in if \<not> f h then search_loop f (h + 1) j else search_loop f i h)
      else i)"
  by pat_completeness auto
termination
  by (relation "measure (\<lambda>(f, i, j). j - i)") auto

declare search_loop.simps [simp del]

definition Search :: "nat \<Rightarrow> (nat \<Rightarrow> bool) \<Rightarrow> nat" where
  "Search n f = search_loop f 0 n"

text \<open>
  \<open>Code(2 * (idx + 1))\<close> converts an \<open>int\<close> to \<open>uint16\<close>, keeping the low 16 bits, and
  \<open>code--\<close> wraps around.  The element \<open>codes[idx]\<close> is read only when \<open>idx\<close> is in range.
\<close>

definition Encode :: "'a::linorder Dict \<Rightarrow> 'a \<Rightarrow> Code" where
  "Encode d v =
     (let idx = Search (length (codes d)) (\<lambda>i. v \<le> codes d ! i);
          code = (word_of_nat (2 * (idx + 1)) :: Code)
      in if length (codes d) \<le> idx \<or> codes d ! idx \<noteq> v then code - 1 else code)"

subsection \<open>Construction over an explicit store\<close>

text \<open>
  To speak about the caller's slice, the arrays of \<open>T\<close> live in a store, a list of
  arrays addressed by position, and a slice is the address of its array.
  \<open>append([]T(nil), sample...)\<close> allocates a new array holding the elements of
  \<open>sample\<close>; \<open>sort.Slice\<close> sorts the array it is given in place.  \<open>NewDict_store\<close>
  is \<open>NewDict\<close> statement by statement over the store; the arrays that \<open>NewDict\<close>
  only ever creates and fills itself (the clusters and the codes) stay values.
\<close>

type_synonym 'a store = "'a list list"

definition append_nil :: "'a store \<Rightarrow> nat \<Rightarrow> 'a store \<times> nat" where
  "append_nil st src = (st @ [st ! src], length st)"

definition sort_Slice :: "'a::linorder store \<Rightarrow> nat \<Rightarrow> 'a store" where
  "sort_Slice st a = st[a := sort (st ! a)]"

definition NewDict_store ::
    "'a::linorder \<Rightarrow> Mode \<Rightarrow> 'a store \<Rightarrow> nat \<Rightarrow> 'a store \<times> (error + 'a Dict)" where
  "NewDict_store zero_value m st sample =
     (if length (st ! sample) = 0 then (st, Inr \<lparr>mode = m, codes = [zero_value]\<rparr>)
      else
        (case append_nil st sample of
           (st1, sortedSample) \<Rightarrow>
             (let st2 = sort_Slice st1 sortedSample;
                  clu = clusters (st2 ! sortedSample);
                  ncodes = NumExactCodes m
              in if int (length clu) \<le> ncodes then
                   (st2, Inr \<lparr>mode = m, codes = map value_c clu\<rparr>)
                 else
                   (st2,
                    case assignCodesWithMinimalStep (int (length (st2 ! sample))) ncodes clu of
                      Inl e \<Rightarrow> Inl e
                    | Inr cs \<Rightarrow> Inr \<lparr>mode = m, codes = cs\<rparr>))))"

section \<open>Properties\<close>

subsection \<open>Binary search\<close>

lemma search_loop_bounds:
  "i \<le> j \<Longrightarrow> i \<le> search_loop f i j \<and> search_loop f i j \<le> j"
proof (induction f i j rule: search_loop.induct)
  case (1 f i j)
  show ?case
  proof (cases "i < j")
    case False
    with "1.prems" show ?thesis by (subst search_loop.simps, subst search_loop.simps) simp
  next
    case True
    let ?h = "(i + j) div 2"
    from True have h: "i \<le> ?h" "?h < j" by simp_all
    show ?thesis
    proof (cases "f ?h")
      case True
      with \<open>i < j\<close> have eq: "search_loop f i j = search_loop f i ?h"
        by (subst search_loop.simps) (simp add: Let_def)
      from "1.IH"(2) [OF \<open>i < j\<close> refl] True h show ?thesis
        unfolding eq by simp
    next
      case False
      with \<open>i < j\<close> have eq: "search_loop f i j = search_loop f (?h + 1) j"
        by (subst search_loop.simps) (simp add: Let_def)
      from "1.IH"(1) [OF \<open>i < j\<close> refl] False h show ?thesis
        unfolding eq by simp
    qed
  qed
qed

lemma search_loop_least:
  assumes "i \<le> j" "j \<le> n"
    and "\<forall>k<i. \<not> f k"
    and "\<forall>k. j \<le> k \<and> k < n \<longrightarrow> f k"
    and "\<forall>k l. k \<le> l \<and> l < n \<and> f k \<longrightarrow> f l"
  shows "(\<forall>k. k < search_loop f i j \<longrightarrow> \<not> f k) \<and> (\<forall>k. search_loop f i j \<le> k \<and> k < n \<longrightarrow> f k)"
  using assms
proof (induction f i j rule: search_loop.induct)
  case (1 f i j)
  show ?case
  proof (cases "i < j")
    case False
    with "1.prems" have "i = j" by simp
    moreover have "search_loop f j j = j" by (subst search_loop.simps) simp
    ultimately show ?thesis using "1.prems" by simp
  next
    case True
    let ?h = "(i + j) div 2"
    from True have h: "i \<le> ?h" "?h < j" by simp_all
    show ?thesis
    proof (cases "f ?h")
      case True
      with \<open>i < j\<close> have eq: "search_loop f i j = search_loop f i ?h"
        by (subst search_loop.simps) (simp add: Let_def)
      have up: "\<forall>k. ?h \<le> k \<and> k < n \<longrightarrow> f k"
        using True "1.prems"(5) by blast
      from h "1.prems"(2) have "?h \<le> n" by simp
      have "?h \<le> n" by fact
      with True have "(\<forall>k. k < search_loop f i ?h \<longrightarrow> \<not> f k) \<and>
          (\<forall>k. search_loop f i ?h \<le> k \<and> k < n \<longrightarrow> f k)"
        by (intro "1.IH"(2) [OF \<open>i < j\<close> refl _ h(1) _ "1.prems"(3) up "1.prems"(5)]) simp_all
      then show ?thesis by (simp only: eq)
    next
      case False
      with \<open>i < j\<close> have eq: "search_loop f i j = search_loop f (?h + 1) j"
        by (subst search_loop.simps) (simp add: Let_def)
      have lo: "\<forall>k<?h + 1. \<not> f k"
      proof (intro allI impI)
        fix k assume "k < ?h + 1"
        then have "k \<le> ?h" by simp
        moreover from h "1.prems"(2) have "?h < n" by simp
        ultimately show "\<not> f k" using False "1.prems"(5) by blast
      qed
      from h have "?h + 1 \<le> j" by simp
      have "(\<forall>k. k < search_loop f (?h + 1) j \<longrightarrow> \<not> f k) \<and>
          (\<forall>k. search_loop f (?h + 1) j \<le> k \<and> k < n \<longrightarrow> f k)"
        by (rule "1.IH"(1) [OF \<open>i < j\<close> refl False \<open>?h + 1 \<le> j\<close> "1.prems"(2) lo "1.prems"(4) "1.prems"(5)])
      then show ?thesis by (simp only: eq)
    qed
  qed
qed

lemma Search_sorted:
  fixes v :: "'a::linorder"
  assumes "sorted xs"
  shows "Search (length xs) (\<lambda>i. v \<le> xs ! i) \<le> length xs"
    and "\<forall>k. k < Search (length xs) (\<lambda>i. v \<le> xs ! i) \<longrightarrow> xs ! k < v"
    and "\<forall>k. Search (length xs) (\<lambda>i. v \<le> xs ! i) \<le> k \<and> k < length xs \<longrightarrow> v \<le> xs ! k"
proof -
  let ?f = "\<lambda>i. v \<le> xs ! i"
  have mono: "\<forall>k l. k \<le> l \<and> l < length xs \<and> ?f k \<longrightarrow> ?f l"
  proof (intro allI impI)
    fix k l assume "k \<le> l \<and> l < length xs \<and> v \<le> xs ! k"
    then have "xs ! k \<le> xs ! l" "v \<le> xs ! k"
      using assms by (simp_all add: sorted_nth_mono)
    then show "v \<le> xs ! l" by simp
  qed
  show "Search (length xs) ?f \<le> length xs"
    unfolding Search_def using search_loop_bounds [of 0 "length xs" ?f] by simp
  have a: "(0::nat) \<le> length xs" and b: "length xs \<le> length xs"
    and c: "\<forall>k<0::nat. \<not> ?f k"
    by simp_all
  have d: "\<forall>k. length xs \<le> k \<and> k < length xs \<longrightarrow> ?f k"
    by (simp add: not_less [symmetric])
  have "(\<forall>k. k < search_loop ?f 0 (length xs) \<longrightarrow> \<not> ?f k) \<and>
        (\<forall>k. search_loop ?f 0 (length xs) \<le> k \<and> k < length xs \<longrightarrow> ?f k)"
    by (rule search_loop_least [OF a b c d mono])
  then show "\<forall>k. k < Search (length xs) ?f \<longrightarrow> xs ! k < v"
    and "\<forall>k. Search (length xs) ?f \<le> k \<and> k < length xs \<longrightarrow> v \<le> xs ! k"
    unfolding Search_def by (simp_all add: not_le)
qed

subsection \<open>Clusters of a sorted sample\<close>

lemma clusters_loop_values:
  "map value_c (clusters_loop ss cur cnt clu) = map value_c clu @ remdups_adj (cur # ss)"
  by (induction ss arbitrary: cur cnt clu) auto

lemma clusters_values: "map value_c (clusters xs) = remdups_adj xs"
  by (cases xs) (simp_all add: clusters_loop_values)

lemma length_clusters: "length (clusters xs) = length (remdups_adj xs)"
  by (metis clusters_values length_map)

lemma strict_sorted_remdups_adj: "sorted xs \<Longrightarrow> sorted_wrt (<) (remdups_adj xs)"
  by (induction xs rule: remdups_adj.induct) (auto simp: less_le)

subsection \<open>Segments of assignCodesWithStep\<close>

lemma segment_loop_inv:
  "m \<le> l \<Longrightarrow> segment_loop c clu l m s = (l', m') \<Longrightarrow>
   l \<le> l' \<and> m \<le> m' \<and> m' \<le> l' \<and> (m' < l' \<or> (l' = l \<and> m' = m)) \<and>
   (l \<le> length clu \<longrightarrow> l' \<le> length clu)"
proof (induction c clu l m s rule: segment_loop.induct)
  case (1 codestep clu lastIdx idxWithMaxVal clusterCountSum)
  show ?case
  proof (cases "lastIdx < length clu \<and> clusterCountSum < codestep")
    case False
    with "1.prems" show ?thesis
      by (simp add: segment_loop_exit)
  next
    case True
    let ?m = "if count_c (clu ! idxWithMaxVal) < count_c (clu ! lastIdx) then lastIdx
              else idxWithMaxVal"
    from True "1.prems"(2)
    have eq: "segment_loop codestep clu (lastIdx + 1) ?m
                (clusterCountSum + count_c (clu ! lastIdx)) = (l', m')"
      by (simp add: segment_loop_step)
    from "1.prems"(1) have le: "?m \<le> lastIdx + 1" "idxWithMaxVal \<le> ?m" "?m \<le> lastIdx"
      by simp_all
    have "lastIdx + 1 \<le> l' \<and> ?m \<le> m' \<and> m' \<le> l' \<and>
        (m' < l' \<or> (l' = lastIdx + 1 \<and> m' = ?m)) \<and>
        (lastIdx + 1 \<le> length clu \<longrightarrow> l' \<le> length clu)"
      using True le(1) eq by (intro "1.IH") simp_all
    with le True show ?thesis
      by (auto simp del: One_nat_def)
  qed
qed

lemma segment_loop_progress:
  assumes "0 < codestep" "firstIdx < length clu"
  shows "firstIdx < fst (segment_loop codestep clu firstIdx firstIdx 0)"
proof -
  have "firstIdx + 1 \<le> fst (segment_loop codestep clu (firstIdx + 1) firstIdx
      (0 + count_c (clu ! firstIdx)))"
    by (rule segment_loop_lastIdx_ge)
  with assms show ?thesis
    by (simp add: segment_loop_step)
qed

lemma segments_Cons:
  "firstIdx < length clu \<Longrightarrow> segment_loop codestep clu firstIdx firstIdx 0 = (l, m) \<Longrightarrow>
   segments codestep clu firstIdx = (firstIdx, l, m) # segments codestep clu (l + 1)"
  by (subst segments.simps) simp

lemma segments_Nil: "\<not> firstIdx < length clu \<Longrightarrow> segments codestep clu firstIdx = []"
  by (subst segments.simps) simp

lemma segments_bounds:
  "(f, l, m) \<in> set (segments codestep clu firstIdx) \<Longrightarrow>
   firstIdx \<le> f \<and> f < length clu \<and> f \<le> m \<and> m \<le> l \<and> (m < l \<or> l = f) \<and>
   l \<le> length clu \<and> m < length clu"
proof (induction codestep clu firstIdx rule: segments.induct)
  case (1 codestep clu firstIdx)
  show ?case
  proof (cases "firstIdx < length clu")
    case False
    with "1.prems" show ?thesis by (simp add: segments_Nil)
  next
    case True
    obtain l0 m0 where s: "segment_loop codestep clu firstIdx firstIdx 0 = (l0, m0)"
      by (cases "segment_loop codestep clu firstIdx firstIdx 0")
    from segment_loop_inv [OF le_refl s] True
    have inv: "firstIdx \<le> l0" "firstIdx \<le> m0" "m0 \<le> l0"
      "m0 < l0 \<or> (l0 = firstIdx \<and> m0 = firstIdx)" "l0 \<le> length clu"
      by simp_all
    from "1.prems" True s
    consider "(f, l, m) = (firstIdx, l0, m0)" | "(f, l, m) \<in> set (segments codestep clu (l0 + 1))"
      by (auto simp: segments_Cons)
    then show ?thesis
    proof cases
      case 1
      with inv True show ?thesis by auto
    next
      case 2
      from "1.IH" [OF True s [symmetric] 2] inv show ?thesis by simp
    qed
  qed
qed

lemma assign_loop_segments:
  "assign_loop codestep clu firstIdx acc =
   acc @ map (\<lambda>(f, l, m). value_c (clu ! m)) (segments codestep clu firstIdx)"
proof (induction codestep clu firstIdx acc rule: assign_loop.induct)
  case (1 codestep clu firstIdx acc)
  show ?case
  proof (cases "firstIdx < length clu")
    case False
    then show ?thesis
      by (subst assign_loop.simps) (simp add: segments_Nil)
  next
    case True
    obtain l0 m0 where s: "segment_loop codestep clu firstIdx firstIdx 0 = (l0, m0)"
      by (cases "segment_loop codestep clu firstIdx firstIdx 0")
    from True s have "assign_loop codestep clu firstIdx acc =
        assign_loop codestep clu (l0 + 1) (acc @ [value_c (clu ! m0)])"
      by (subst assign_loop.simps) simp
    also have "\<dots> = (acc @ [value_c (clu ! m0)]) @
        map (\<lambda>(f, l, m). value_c (clu ! m)) (segments codestep clu (l0 + 1))"
      by (rule "1.IH" [OF True s [symmetric]])
    finally show ?thesis
      using True s by (simp add: segments_Cons)
  qed
qed

lemma segments_chosen_sorted:
  "sorted_wrt (<) (map (\<lambda>(f, l, m). m) (segments codestep clu firstIdx))"
proof (induction codestep clu firstIdx rule: segments.induct)
  case (1 codestep clu firstIdx)
  show ?case
  proof (cases "firstIdx < length clu")
    case False
    then show ?thesis by (simp add: segments_Nil)
  next
    case True
    obtain l0 m0 where s: "segment_loop codestep clu firstIdx firstIdx 0 = (l0, m0)"
      by (cases "segment_loop codestep clu firstIdx firstIdx 0")
    from segment_loop_inv [OF le_refl s] have "m0 \<le> l0" by simp
    moreover have "l0 + 1 \<le> m" if "(f, l, m) \<in> set (segments codestep clu (l0 + 1))" for f l m
      using segments_bounds [OF that] by simp
    ultimately have "\<forall>x \<in> set (segments codestep clu (l0 + 1)). m0 < (\<lambda>(f, l, m). m) x"
      by fastforce
    with "1.IH" [OF True s [symmetric]] True s show ?thesis
      by (simp add: segments_Cons)
  qed
qed

lemma assignCodesWithStep_chosen:
  "assignCodesWithStep codestep clu =
   map (\<lambda>m. value_c (clu ! m)) (map (\<lambda>(f, l, m). m) (segments codestep clu 0))"
  by (simp add: assignCodesWithStep_def assign_loop_segments case_prod_unfold comp_def)

lemma assignCodesWithStep_subset:
  "set (assignCodesWithStep codestep clu) \<subseteq> set (map value_c clu)"
proof
  fix x assume "x \<in> set (assignCodesWithStep codestep clu)"
  then obtain f l m where t: "(f, l, m) \<in> set (segments codestep clu 0)"
    and x: "x = value_c (clu ! m)"
    by (auto simp: assignCodesWithStep_def assign_loop_segments)
  from segments_bounds [OF t] have "m < length clu" by simp
  with x show "x \<in> set (map value_c clu)" by simp
qed

lemma assignCodesWithStep_sorted:
  fixes clu :: "'a::linorder cluster list"
  assumes "sorted_wrt (<) (map value_c clu)"
  shows "sorted_wrt (<) (assignCodesWithStep codestep clu)"
proof -
  let ?ms = "map (\<lambda>(f, l, m). m) (segments codestep clu 0)"
  have in_range: "m < length clu" if "m \<in> set ?ms" for m
    using that segments_bounds [of _ _ m codestep clu 0] by auto
  have "sorted_wrt (\<lambda>i j. i < j \<and> i < length clu \<and> j < length clu) ?ms"
    using segments_chosen_sorted [of codestep clu 0] in_range
    by (simp add: sorted_wrt_iff_nth_less)
  then have "sorted_wrt (\<lambda>i j. value_c (clu ! i) < value_c (clu ! j)) ?ms"
  proof (rule sorted_wrt_mono_rel [rotated])
    fix i j assume "i < j \<and> i < length clu \<and> j < length clu"
    then show "value_c (clu ! i) < value_c (clu ! j)"
      using sorted_wrt_nth_less [OF assms, of i j] by simp
  qed
  then show ?thesis
    by (simp add: assignCodesWithStep_chosen sorted_wrt_map)
qed

subsection \<open>Convergence loop and construction\<close>

lemma refine_loop_ok:
  "0 \<le> ncodes \<Longrightarrow> \<exists>r. refine_loop k ncodes clu codestep acc = Inr r"
  by (induction k arbitrary: codestep acc) (simp_all add: Let_def)

lemma refine_loop_length:
  "refine_loop k ncodes clu codestep acc = Inr r \<Longrightarrow>
   (k = 0 \<longrightarrow> int (length acc) \<le> ncodes) \<Longrightarrow> int (length r) \<le> ncodes"
proof (induction k arbitrary: codestep acc)
  case 0
  then show ?case by simp
next
  case (Suc k)
  let ?codestep' = "(codestep * ((int (length acc) * 10000) sdiv ncodes)) sdiv 10000"
  let ?nxt = "assignCodesWithStep ?codestep' clu"
  consider (eq) "int (length acc) = ncodes"
    | (gt) "int (length acc) > ncodes"
    | (again) "int (length acc) < ncodes" "int (length ?nxt) < ncodes"
    | (keep) "int (length acc) < ncodes" "\<not> int (length ?nxt) < ncodes"
    by linarith
  then show ?case
  proof cases
    case eq
    with Suc.prems show ?thesis by simp
  next
    case gt
    with Suc.prems show ?thesis by (auto split: if_splits)
  next
    case again
    with Suc.prems(1) have "refine_loop k ncodes clu ?codestep' ?nxt = Inr r"
      by (simp add: Let_def)
    moreover from again(2) have "k = 0 \<longrightarrow> int (length ?nxt) \<le> ncodes"
      by simp
    ultimately show ?thesis
      by (rule Suc.IH)
  next
    case keep
    with Suc.prems(1) show ?thesis by (simp add: Let_def)
  qed
qed

lemma refine_loop_preserves:
  assumes "refine_loop k ncodes clu codestep acc = Inr r"
    and "P acc"
    and step: "\<And>c. P (assignCodesWithStep c clu)"
    and tk: "\<And>n xs. P xs \<Longrightarrow> P (take n xs)"
  shows "P r"
  using assms(1,2)
proof (induction k arbitrary: codestep acc)
  case 0
  then show ?case by simp
next
  case (Suc k)
  let ?codestep' = "(codestep * ((int (length acc) * 10000) sdiv ncodes)) sdiv 10000"
  let ?nxt = "assignCodesWithStep ?codestep' clu"
  consider (eq) "int (length acc) = ncodes"
    | (gt) "int (length acc) > ncodes"
    | (again) "int (length acc) < ncodes" "int (length ?nxt) < ncodes"
    | (keep) "int (length acc) < ncodes" "\<not> int (length ?nxt) < ncodes"
    by linarith
  then show ?case
  proof cases
    case eq
    with Suc.prems show ?thesis by simp
  next
    case gt
    with Suc.prems tk show ?thesis by (auto split: if_splits)
  next
    case again
    with Suc.prems(1) have "refine_loop k ncodes clu ?codestep' ?nxt = Inr r"
      by (simp add: Let_def)
    then show ?thesis
      using step by (rule Suc.IH)
  next
    case keep
    with Suc.prems show ?thesis by (simp add: Let_def)
  qed
qed

lemma assignCodesWithMinimalStep_zero:
  "assignCodesWithMinimalStep sampleSize 0 clu = Inl DivideByZero"
  by (simp add: assignCodesWithMinimalStep_def quo_def)

lemma assignCodesWithMinimalStep_ok:
  "0 < ncodes \<Longrightarrow> \<exists>r. assignCodesWithMinimalStep sampleSize ncodes clu = Inr r"
  using refine_loop_ok [of ncodes 8 clu]
  by (simp add: assignCodesWithMinimalStep_def quo_def)

lemma assignCodesWithMinimalStep_length:
  assumes "assignCodesWithMinimalStep sampleSize ncodes clu = Inr r"
  shows "int (length r) \<le> ncodes"
proof -
  from assms obtain codestep where
    "refine_loop 8 ncodes clu codestep (assignCodesWithStep codestep clu) = Inr r"
    by (auto simp: assignCodesWithMinimalStep_def quo_def split: if_splits)
  then show ?thesis
    by (rule refine_loop_length) simp
qed

lemma assignCodesWithMinimalStep_preserves:
  assumes "assignCodesWithMinimalStep sampleSize ncodes clu = Inr r"
    and "\<And>c. P (assignCodesWithStep c clu)"
    and "\<And>n xs. P xs \<Longrightarrow> P (take n xs)"
  shows "P r"
proof -
  from assms(1) obtain codestep where
    "refine_loop 8 ncodes clu codestep (assignCodesWithStep codestep clu) = Inr r"
    by (auto simp: assignCodesWithMinimalStep_def quo_def split: if_splits)
  then show ?thesis
    using assms(2) assms(2,3) by (rule refine_loop_preserves)
qed

lemma NumExactCodes_cases:
  "NumExactCodes m = 127 \<and> m = Byte \<or> NumExactCodes m = 32767 \<and> m = Word \<or>
   NumExactCodes m = 0 \<and> m \<noteq> Byte \<and> m \<noteq> Word"
  by (simp add: NumExactCodes_def Byte_def Word_def)

lemma clusters_sort_values:
  fixes sample :: "'a::linorder list"
  shows "map value_c (clusters (sort sample)) = sorted_list_of_set (set sample)"
proof -
  have "sorted_wrt (<) (remdups_adj (sort sample))"
    by (rule strict_sorted_remdups_adj) simp
  then have "sorted (remdups_adj (sort sample))" "distinct (remdups_adj (sort sample))"
    by (simp_all add: strict_sorted_iff)
  moreover have "set (remdups_adj (sort sample)) = set sample" by simp
  ultimately have "remdups_adj (sort sample) = sorted_list_of_set (set sample)"
    by (metis sorted_list_of_set.idem_if_sorted_distinct)
  then show ?thesis by (simp add: clusters_values)
qed

lemma NewDict_nonempty:
  fixes sample :: "'a::linorder list"
  assumes "sample \<noteq> []"
  shows "NewDict z m sample =
     (if int (card (set sample)) \<le> NumExactCodes m then
        Inr \<lparr>mode = m, codes = sorted_list_of_set (set sample)\<rparr>
      else
        (case assignCodesWithMinimalStep (int (length sample)) (NumExactCodes m)
                (clusters (sort sample)) of
           Inl e \<Rightarrow> Inl e
         | Inr cs \<Rightarrow> Inr \<lparr>mode = m, codes = cs\<rparr>))"
proof -
  have "length (clusters (sort sample)) = length (map value_c (clusters (sort sample)))"
    by simp
  also have "\<dots> = card (set sample)"
    by (simp only: clusters_sort_values) simp
  finally show ?thesis
    using assms by (simp add: NewDict_def Let_def clusters_sort_values)
qed

lemma NewDict_empty: "NewDict z m [] = Inr \<lparr>mode = m, codes = [z]\<rparr>"
  by (simp add: NewDict_def)

lemma NewDict_valid_ok:
  fixes sample :: "'a::linorder list"
  assumes "m = Byte \<or> m = Word"
  shows "\<exists>d. NewDict z m sample = Inr d"
proof (cases "sample = []")
  case True
  then show ?thesis by (simp add: NewDict_empty)
next
  case False
  from assms have "0 < NumExactCodes m"
    using NumExactCodes_cases [of m] by auto
  from assignCodesWithMinimalStep_ok [OF this, of "int (length sample)" "clusters (sort sample)"]
  show ?thesis
    using False by (auto simp: NewDict_nonempty)
qed

lemma NewDict_invalid_mode:
  fixes sample :: "'a::linorder list"
  assumes "m \<noteq> Byte" "m \<noteq> Word" "sample \<noteq> []"
  shows "NewDict z m sample = Inl DivideByZero"
proof -
  from assms have n: "NumExactCodes m = 0"
    by (simp add: NumExactCodes_def)
  from assms(3) have "set sample \<noteq> {}" by simp
  then have "card (set sample) \<noteq> 0" by simp
  with n assms(3) show ?thesis
    by (simp add: NewDict_nonempty assignCodesWithMinimalStep_zero)
qed

lemma NewDict_preserves:
  fixes sample :: "'a::linorder list"
  assumes "NewDict z m sample = Inr d"
    and "sample = [] \<Longrightarrow> P [z]"
    and "sample \<noteq> [] \<Longrightarrow> P (map value_c (clusters (sort sample)))"
    and "\<And>c. sample \<noteq> [] \<Longrightarrow> P (assignCodesWithStep c (clusters (sort sample)))"
    and "\<And>n xs. P xs \<Longrightarrow> P (take n xs)"
  shows "P (codes d)"
proof (cases "sample = []")
  case True
  with assms(1,2) show ?thesis by (auto simp: NewDict_empty)
next
  case False
  show ?thesis
  proof (cases "int (card (set sample)) \<le> NumExactCodes m")
    case True
    with False assms(1) have "codes d = sorted_list_of_set (set sample)"
      by (auto simp: NewDict_nonempty)
    with assms(3) [OF False] show ?thesis
      by (simp add: clusters_sort_values)
  next
    case nle: False
    with False assms(1) obtain cs where
      cs: "assignCodesWithMinimalStep (int (length sample)) (NumExactCodes m)
             (clusters (sort sample)) = Inr cs" and d: "codes d = cs"
      by (auto simp: NewDict_nonempty split: sum.splits)
    from cs have "P cs"
      using assms(4) [OF False] assms(5) by (rule assignCodesWithMinimalStep_preserves)
    with d show ?thesis by simp
  qed
qed

lemma NewDict_length:
  fixes sample :: "'a::linorder list"
  assumes "NewDict z m sample = Inr d" "m = Byte \<or> m = Word"
  shows "int (length (codes d)) \<le> NumExactCodes m"
proof (cases "sample = []")
  case True
  with assms show ?thesis
    using NumExactCodes_cases [of m] by (auto simp: NewDict_empty)
next
  case False
  show ?thesis
  proof (cases "int (card (set sample)) \<le> NumExactCodes m")
    case True
    with False assms(1) have "codes d = sorted_list_of_set (set sample)"
      by (auto simp: NewDict_nonempty)
    with True show ?thesis by simp
  next
    case nle: False
    with False assms(1) obtain cs where
      cs: "assignCodesWithMinimalStep (int (length sample)) (NumExactCodes m)
             (clusters (sort sample)) = Inr cs" and d: "codes d = cs"
      by (auto simp: NewDict_nonempty split: sum.splits)
    from assignCodesWithMinimalStep_length [OF cs] d show ?thesis by simp
  qed
qed

lemma NewDict_length_any:
  fixes sample :: "'a::linorder list"
  assumes "NewDict z m sample = Inr d"
  shows "length (codes d) \<le> 32767"
proof (cases "m = Byte \<or> m = Word")
  case True
  from NewDict_length [OF assms True] show ?thesis
    using NumExactCodes_cases [of m] by auto
next
  case False
  with assms have "sample = []"
    using NewDict_invalid_mode [of m sample z] by auto
  with assms show ?thesis by (auto simp: NewDict_empty)
qed

lemma NewDict_strict_sorted:
  fixes sample :: "'a::linorder list"
  assumes "NewDict z m sample = Inr d"
  shows "sorted_wrt (<) (codes d)"
proof (rule NewDict_preserves [OF assms])
  show "sorted_wrt (<) [z]" by simp
  show cl: "sorted_wrt (<) (map value_c (clusters (sort sample)))"
    by (simp add: clusters_sort_values)
  show "sorted_wrt (<) (assignCodesWithStep c (clusters (sort sample)))" for c
    using cl by (rule assignCodesWithStep_sorted)
  show "sorted_wrt (<) (take n xs)" if "sorted_wrt (<) xs" for n and xs :: "'a list"
    using that by (rule sorted_wrt_take)
qed

lemma NewDict_subset:
  fixes sample :: "'a::linorder list"
  assumes "NewDict z m sample = Inr d" "sample \<noteq> []"
  shows "set (codes d) \<subseteq> set sample"
proof (rule NewDict_preserves [OF assms(1)])
  show "set [z] \<subseteq> set sample" if "sample = []"
    using that assms(2) by simp
  show "set (map value_c (clusters (sort sample))) \<subseteq> set sample"
    by (simp add: clusters_sort_values)
  show "set (assignCodesWithStep c (clusters (sort sample))) \<subseteq> set sample" for c
    using assignCodesWithStep_subset [of c "clusters (sort sample)"]
    by (simp add: clusters_sort_values)
  show "set (take n xs) \<subseteq> set sample" if "set xs \<subseteq> set sample" for n and xs :: "'a list"
    using that set_take_subset [of n xs] by blast
qed

subsection \<open>Lookup\<close>

lemma Search_exact:
  fixes v :: "'a::linorder"
  assumes "sorted_wrt (<) xs"
  shows "v \<in> set xs \<longleftrightarrow>
    Search (length xs) (\<lambda>i. v \<le> xs ! i) < length xs \<and>
    xs ! Search (length xs) (\<lambda>i. v \<le> xs ! i) = v"
proof
  let ?r = "Search (length xs) (\<lambda>i. v \<le> xs ! i)"
  from assms have srt: "sorted xs" by (rule strict_sorted_imp_sorted)
  assume "v \<in> set xs"
  then obtain k where k: "k < length xs" "xs ! k = v"
    by (auto simp: in_set_conv_nth)
  from Search_sorted(2) [OF srt, of v] k have "\<not> k < ?r" by auto
  then have rk: "?r \<le> k" by simp
  with k have rn: "?r < length xs" by simp
  with Search_sorted(3) [OF srt, of v] have "v \<le> xs ! ?r" by simp
  moreover have "xs ! ?r < xs ! k" if "?r < k"
    using sorted_wrt_nth_less [OF assms that k(1)] .
  ultimately have "?r = k" using rk k(2) by (cases "?r < k") auto
  with rn k show "?r < length xs \<and> xs ! ?r = v" by simp
next
  assume "Search (length xs) (\<lambda>i. v \<le> xs ! i) < length xs \<and>
    xs ! Search (length xs) (\<lambda>i. v \<le> xs ! i) = v"
  then show "v \<in> set xs" by (metis nth_mem)
qed

lemma Encode_unat:
  fixes d :: "'a::linorder Dict"
  assumes "sorted_wrt (<) (codes d)" "length (codes d) \<le> 32767"
  shows "unat (Encode d v) =
    2 * Search (length (codes d)) (\<lambda>i. v \<le> codes d ! i) + (if v \<in> set (codes d) then 2 else 1)"
proof -
  let ?r = "Search (length (codes d)) (\<lambda>i. v \<le> codes d ! i)"
  from assms(1) have srt: "sorted (codes d)" by (rule strict_sorted_imp_sorted)
  from Search_sorted(1) [OF srt, of v] assms(2) have r: "?r \<le> 32767" by simp
  show ?thesis
  proof (cases "v \<in> set (codes d)")
    case True
    with Search_exact [OF assms(1), of v] have ex: "?r < length (codes d)" "codes d ! ?r = v"
      by simp_all
    then have "Encode d v = word_of_nat (2 * (?r + 1))"
      by (simp add: Encode_def Let_def)
    then have "unat (Encode d v) = (2 * (?r + 1)) mod 2 ^ LENGTH(16)"
      by (simp only: unat_of_nat)
    moreover from ex(1) assms(2) have "2 * (?r + 1) < 65536" by simp
    ultimately have "unat (Encode d v) = 2 * (?r + 1)"
      by simp
    with True show ?thesis by simp
  next
    case False
    with Search_exact [OF assms(1), of v]
    have "length (codes d) \<le> ?r \<or> codes d ! ?r \<noteq> v" by auto
    then have "Encode d v = word_of_nat (2 * (?r + 1)) - 1"
      by (simp add: Encode_def Let_def)
    also have "\<dots> = word_of_nat (2 * ?r + 1)"
      by simp
    finally have "unat (Encode d v) = (2 * ?r + 1) mod 2 ^ LENGTH(16)"
      by (simp only: unat_of_nat)
    moreover from r have "2 * ?r + 1 < 65536" by simp
    ultimately have "unat (Encode d v) = 2 * ?r + 1"
      by simp
    with False show ?thesis by simp
  qed
qed

lemma Search_mono:
  fixes a b :: "'a::linorder"
  assumes "sorted xs" "a \<le> b"
  shows "Search (length xs) (\<lambda>i. a \<le> xs ! i) \<le> Search (length xs) (\<lambda>i. b \<le> xs ! i)"
proof (rule ccontr)
  let ?ra = "Search (length xs) (\<lambda>i. a \<le> xs ! i)"
  let ?rb = "Search (length xs) (\<lambda>i. b \<le> xs ! i)"
  assume "\<not> ?ra \<le> ?rb"
  then have lt: "?rb < ?ra" by simp
  with Search_sorted(1) [OF assms(1), of a] have "?rb < length xs" by simp
  with Search_sorted(3) [OF assms(1), of b] have "b \<le> xs ! ?rb" by simp
  moreover from Search_sorted(2) [OF assms(1), of a] lt have "xs ! ?rb < a" by simp
  ultimately show False using assms(2) by simp
qed

lemma Encode_mono:
  fixes d :: "'a::linorder Dict"
  assumes st: "sorted_wrt (<) (codes d)" and len: "length (codes d) \<le> 32767" and ab: "a \<le> b"
  shows "Encode d a \<le> Encode d b"
proof -
  let ?ra = "Search (length (codes d)) (\<lambda>i. a \<le> codes d ! i)"
  let ?rb = "Search (length (codes d)) (\<lambda>i. b \<le> codes d ! i)"
  from st have srt: "sorted (codes d)" by (rule strict_sorted_imp_sorted)
  from Search_mono [OF srt ab] have le: "?ra \<le> ?rb" .
  have "b \<in> set (codes d)" if eq: "?ra = ?rb" and a: "a \<in> set (codes d)"
  proof -
    from a Search_exact [OF st, of a] have ra: "?ra < length (codes d)" "codes d ! ?ra = a"
      by simp_all
    with eq Search_sorted(3) [OF srt, of b] have "b \<le> a" by auto
    with ab have "b = a" by simp
    with a show ?thesis by simp
  qed
  with le have "2 * ?ra + (if a \<in> set (codes d) then 2 else 1)
      \<le> 2 * ?rb + (if b \<in> set (codes d) then 2 else 1 :: nat)"
    by (cases "?ra = ?rb") auto
  then have "unat (Encode d a) \<le> unat (Encode d b)"
    by (simp only: Encode_unat [OF st len])
  then show ?thesis by (simp only: word_le_nat_alt)
qed

lemma IsExact_unat: "IsExact c \<longleftrightarrow> even (unat c)"
proof -
  have "c mod 2 = 0 \<longleftrightarrow> unat (c mod 2) = 0"
    by (simp only: unat_eq_0)
  also have "\<dots> \<longleftrightarrow> unat c mod 2 = 0"
    by (simp add: unat_mod)
  finally show ?thesis
    by (simp add: IsExact_def even_iff_mod_2_eq_zero)
qed

lemma Encode_exact_iff:
  fixes d :: "'a::linorder Dict"
  assumes "sorted_wrt (<) (codes d)" "length (codes d) \<le> 32767"
  shows "IsExact (Encode d v) \<longleftrightarrow> v \<in> set (codes d)"
  by (simp add: IsExact_unat Encode_unat [OF assms])

lemma Search_nth:
  fixes xs :: "'a::linorder list"
  assumes "sorted_wrt (<) xs" "i < length xs"
  shows "Search (length xs) (\<lambda>j. xs ! i \<le> xs ! j) = i"
proof -
  let ?r = "Search (length xs) (\<lambda>j. xs ! i \<le> xs ! j)"
  from assms(2) have "xs ! i \<in> set xs" by simp
  with Search_exact [OF assms(1), of "xs ! i"] have "?r < length xs" "xs ! ?r = xs ! i"
    by simp_all
  moreover from assms(1) have "distinct xs" by (simp add: strict_sorted_iff)
  ultimately show ?thesis
    using assms(2) by (simp add: nth_eq_iff_index_eq)
qed

lemma Encode_nth:
  fixes d :: "'a::linorder Dict"
  assumes "sorted_wrt (<) (codes d)" "length (codes d) \<le> 32767" "i < length (codes d)"
  shows "unat (Encode d (codes d ! i)) = 2 * (i + 1)"
  using assms(3) by (simp add: Encode_unat [OF assms(1,2)] Search_nth [OF assms(1,3)])

lemma Search_one: "Search (Suc 0) f = (if f 0 then 0 else 1)"
  by (simp add: Search_def search_loop.simps [of f 0 "Suc 0"] search_loop.simps [of f 0 0]
      search_loop.simps [of f "Suc 0" "Suc 0"])

lemma Encode_singleton:
  fixes z :: "'a::linorder"
  shows "Encode \<lparr>mode = m, codes = [z]\<rparr> v = (if v = z then 2 else if v < z then 1 else 3)"
  by (auto simp: Encode_def Search_one Let_def)

subsection \<open>Segments that accumulate and segments that do not\<close>

text \<open>
  With a positive \<open>codestep\<close> every segment accumulates at least one cluster, so it
  closes with \<open>firstIdx < lastIdx\<close>.  With \<open>codestep \<le> 0\<close> the inner loop never runs:
  every segment closes with \<open>lastIdx = firstIdx\<close> and emits that very cluster, so all
  cluster values are returned.
\<close>

lemma segments_progress:
  "0 < codestep \<Longrightarrow> (f, l, m) \<in> set (segments codestep clu firstIdx) \<Longrightarrow> f < l"
proof (induction codestep clu firstIdx rule: segments.induct)
  case (1 codestep clu firstIdx)
  show ?case
  proof (cases "firstIdx < length clu")
    case False
    with "1.prems" show ?thesis by (simp add: segments_Nil)
  next
    case True
    obtain l0 m0 where s: "segment_loop codestep clu firstIdx firstIdx 0 = (l0, m0)"
      by (cases "segment_loop codestep clu firstIdx firstIdx 0")
    from "1.prems" True s
    consider "(f, l, m) = (firstIdx, l0, m0)" | "(f, l, m) \<in> set (segments codestep clu (l0 + 1))"
      by (auto simp: segments_Cons)
    then show ?thesis
    proof cases
      case 1
      with segment_loop_progress [OF "1.prems"(1) True] s show ?thesis by simp
    next
      case 2
      from "1.IH" [OF True s [symmetric] "1.prems"(1) 2] show ?thesis .
    qed
  qed
qed

lemma segments_nonpositive:
  "codestep \<le> 0 \<Longrightarrow>
   segments codestep clu firstIdx = map (\<lambda>i. (i, i, i)) [firstIdx..<length clu]"
proof (induction codestep clu firstIdx rule: segments.induct)
  case (1 codestep clu firstIdx)
  show ?case
  proof (cases "firstIdx < length clu")
    case False
    then show ?thesis by (simp add: segments_Nil)
  next
    case True
    from "1.prems" have s: "segment_loop codestep clu firstIdx firstIdx 0 = (firstIdx, firstIdx)"
      by (simp add: segment_loop_exit)
    from "1.IH" [OF True s [symmetric] "1.prems"] True show ?thesis
      by (simp add: segments_Cons [OF True s] upt_conv_Cons)
  qed
qed

lemma assignCodesWithStep_nonpositive:
  "codestep \<le> 0 \<Longrightarrow> assignCodesWithStep codestep clu = map value_c clu"
proof -
  assume "codestep \<le> 0"
  then have "assignCodesWithStep codestep clu = map (\<lambda>i. value_c (clu ! i)) [0..<length clu]"
    by (simp add: assignCodesWithStep_def assign_loop_segments segments_nonpositive comp_def)
  also have "\<dots> = map value_c (map ((!) clu) [0..<length clu])"
    by (simp add: comp_def)
  also have "\<dots> = map value_c clu"
    by (simp only: map_nth)
  finally show ?thesis .
qed

lemma segments_nth_split:
  "i < length (segments codestep clu firstIdx) \<Longrightarrow>
   segments codestep clu firstIdx ! i = (f, l, m) \<Longrightarrow>
   segments codestep clu firstIdx =
     take i (segments codestep clu firstIdx) @ (f, l, m) # segments codestep clu (l + 1) \<and>
   (\<forall>(f', l', m') \<in> set (take i (segments codestep clu firstIdx)). l' < f)"
proof (induction i arbitrary: firstIdx)
  case 0
  then have lt: "firstIdx < length clu"
    by (cases "firstIdx < length clu") (simp_all add: segments_Nil)
  obtain l0 m0 where s: "segment_loop codestep clu firstIdx firstIdx 0 = (l0, m0)"
    by (cases "segment_loop codestep clu firstIdx firstIdx 0")
  note unfold = segments_Cons [OF lt s]
  from "0.prems"(2) have eq: "f = firstIdx" "l = l0" "m = m0"
    by (simp_all add: unfold)
  show ?case
    unfolding eq by (simp add: unfold)
next
  case (Suc i)
  then have lt: "firstIdx < length clu"
    by (cases "firstIdx < length clu") (simp_all add: segments_Nil)
  obtain l0 m0 where s: "segment_loop codestep clu firstIdx firstIdx 0 = (l0, m0)"
    by (cases "segment_loop codestep clu firstIdx firstIdx 0")
  note unfold = segments_Cons [OF lt s]
  from Suc.prems have i: "i < length (segments codestep clu (l0 + 1))"
    and nth: "segments codestep clu (l0 + 1) ! i = (f, l, m)"
    by (simp_all add: unfold)
  from Suc.IH [OF i nth]
  have split: "segments codestep clu (l0 + 1) =
      take i (segments codestep clu (l0 + 1)) @ (f, l, m) # segments codestep clu (l + 1)"
    and before: "\<forall>(f', l', m') \<in> set (take i (segments codestep clu (l0 + 1))). l' < f"
    by simp_all
  from i nth have "(f, l, m) \<in> set (segments codestep clu (l0 + 1))"
    by (metis nth_mem)
  from segments_bounds [OF this] have "l0 < f" by simp
  with before have "\<forall>(f', l', m') \<in> set (take (Suc i) (segments codestep clu firstIdx)). l' < f"
    by (simp add: unfold)
  moreover from split have "segments codestep clu firstIdx =
      take (Suc i) (segments codestep clu firstIdx) @ (f, l, m) # segments codestep clu (l + 1)"
    by (simp add: unfold)
  ultimately show ?case by blast
qed

lemma segments_hd:
  "segments codestep clu firstIdx \<noteq> [] \<Longrightarrow> fst (hd (segments codestep clu firstIdx)) = firstIdx"
proof -
  assume ne: "segments codestep clu firstIdx \<noteq> []"
  then have lt: "firstIdx < length clu"
    by (cases "firstIdx < length clu") (simp_all add: segments_Nil)
  obtain l0 m0 where s: "segment_loop codestep clu firstIdx firstIdx 0 = (l0, m0)"
    by (cases "segment_loop codestep clu firstIdx firstIdx 0")
  show ?thesis by (simp add: segments_Cons [OF lt s])
qed

subsection \<open>The store\<close>

text \<open>
  Over the store, construction leaves every array it was given as it was, appends the
  sorted copy when the sample is not empty, and builds the dictionary of \<open>NewDict\<close>.
  The second lemma shows \<open>sort.Slice\<close> changing the array it is applied to.
\<close>

lemma NewDict_store_eq:
  fixes st :: "'a::linorder store"
  assumes "sample < length st"
  shows "NewDict_store z m st sample =
    (if st ! sample = [] then st else st @ [sort (st ! sample)], NewDict z m (st ! sample))"
  using assms
  by (simp add: NewDict_store_def NewDict_def append_nil_def sort_Slice_def Let_def
      nth_append)

lemma sort_Slice_in_place: "sort_Slice [[3, 1, 2::int]] 0 ! 0 = [1, 2, 3]"
  by (simp add: sort_Slice_def)

section \<open>The claims\<close>

text \<open>
  \<^bold>\<open>C1.\<close>  \<open>Encode\<close> is monotonic on every dictionary that construction returns: for
  query values \<open>a \<le> b\<close>, the code of \<open>a\<close> is at most the code of \<open>b\<close>, compared as the
  unsigned 16-bit numbers they are.
\<close>

theorem C1_encode_monotonic:
  fixes sample :: "'a::linorder list"
  assumes "NewDict z m sample = Inr d" "a \<le> b"
  shows "Encode d a \<le> Encode d b"
  using NewDict_strict_sorted [OF assms(1)] NewDict_length_any [OF assms(1)] assms(2)
  by (rule Encode_mono)

theorem C1_encode_monotonic_witness:
  "NewDict (0::int) Byte [30, 10, 10, 20] = Inr \<lparr>mode = Byte, codes = [10, 20, 30]\<rparr> \<and>
   (15::int) \<le> 20 \<and>
   Encode \<lparr>mode = Byte, codes = [10, 20, 30::int]\<rparr> 15 \<le>
   Encode \<lparr>mode = Byte, codes = [10, 20, 30::int]\<rparr> 20"
proof -
  have h: "NewDict (0::int) Byte [30, 10, 10, 20] = Inr \<lparr>mode = Byte, codes = [10, 20, 30]\<rparr>"
    by code_simp
  have le: "(15::int) \<le> 20" by simp
  from C1_encode_monotonic [OF h le] h le show ?thesis by simp
qed

text \<open>
  \<^bold>\<open>C2.\<close>  On every dictionary that construction returns, the code of a query value is
  exact (even) if and only if the value is one of the dictionary's representatives.
\<close>

theorem C2_exact_iff_representative:
  fixes sample :: "'a::linorder list"
  assumes "NewDict z m sample = Inr d"
  shows "IsExact (Encode d v) \<longleftrightarrow> v \<in> set (codes d)"
  using NewDict_strict_sorted [OF assms] NewDict_length_any [OF assms]
  by (rule Encode_exact_iff)

theorem C2_exact_iff_representative_witness:
  "NewDict (0::int) Word [7, 7, 4] = Inr \<lparr>mode = Word, codes = [4, 7]\<rparr> \<and>
   (IsExact (Encode \<lparr>mode = Word, codes = [4, 7::int]\<rparr> 5) \<longleftrightarrow> 5 \<in> set [4, 7::int]) \<and>
   (IsExact (Encode \<lparr>mode = Word, codes = [4, 7::int]\<rparr> 7) \<longleftrightarrow> 7 \<in> set [4, 7::int])"
proof -
  have h: "NewDict (0::int) Word [7, 7, 4] = Inr \<lparr>mode = Word, codes = [4, 7]\<rparr>"
    by code_simp
  from C2_exact_iff_representative [OF h, of 5] C2_exact_iff_representative [OF h, of 7] h
  show ?thesis by simp
qed

text \<open>
  \<^bold>\<open>C3.\<close>  For a valid mode (Byte, with budget 127, or Word, with budget 32767) and any
  sample, empty or not and however many distinct values it has, construction returns a
  dictionary and its \<open>Len\<close> is at most the mode's exact-code budget.
\<close>

theorem C3_len_within_budget:
  fixes sample :: "'a::linorder list"
  assumes "m = Byte \<or> m = Word"
  shows "\<exists>d. NewDict z m sample = Inr d \<and> Len d \<le> NumExactCodes m \<and>
    NumExactCodes m = (if m = Byte then 127 else 32767)"
proof -
  from NewDict_valid_ok [OF assms] obtain d where d: "NewDict z m sample = Inr d" ..
  from NewDict_length [OF d assms] have "Len d \<le> NumExactCodes m"
    by (simp add: Len_def)
  moreover from assms have "NumExactCodes m = (if m = Byte then 127 else 32767)"
    by (auto simp: NumExactCodes_def)
  ultimately show ?thesis using d by blast
qed

theorem C3_len_within_budget_witness:
  "(Byte = Byte \<or> Byte = Word) \<and>
   (\<exists>d. NewDict (0::int) Byte (map int [0..<300]) = Inr d \<and>
      Len d \<le> NumExactCodes Byte \<and> NumExactCodes Byte = 127)"
  using C3_len_within_budget [of Byte 0 "map int [0..<300]"] by simp

text \<open>
  \<^bold>\<open>C4.\<close>  For a valid mode and any sample, construction returns a dictionary whose
  representative values are strictly ascending, hence without duplicates.  The proof
  covers the one-code-per-cluster path and the adaptive path (\<open>NewDict_strict_sorted\<close>
  goes through both).
\<close>

theorem C4_codes_strictly_ascending:
  fixes sample :: "'a::linorder list"
  assumes "m = Byte \<or> m = Word"
  shows "\<exists>d. NewDict z m sample = Inr d \<and> sorted_wrt (<) (codes d) \<and> distinct (codes d)"
proof -
  from NewDict_valid_ok [OF assms] obtain d where d: "NewDict z m sample = Inr d" ..
  from NewDict_strict_sorted [OF d] have "sorted_wrt (<) (codes d) \<and> distinct (codes d)"
    by (simp add: strict_sorted_iff)
  with d show ?thesis by blast
qed

theorem C4_codes_strictly_ascending_witness:
  "(Word = Byte \<or> Word = Word) \<and>
   (\<exists>d. NewDict (0::int) Word [5, 3, 5, 1] = Inr d \<and> sorted_wrt (<) (codes d) \<and>
      distinct (codes d))"
  using C4_codes_strictly_ascending [of Word 0 "[5, 3, 5, 1]"] by simp

text \<open>
  \<^bold>\<open>C5.\<close>  \<open>NumExactCodes\<close> is 0 for every mode other than Byte and Word.  With such a
  mode and a non-empty sample, nothing rejects the mode: the cluster count exceeds the
  budget 0, the adaptive path is entered, and the division \<open>sampleSize / ncodes\<close> is
  evaluated with \<open>ncodes = 0\<close>, so that construction ends in the division-by-zero panic.
\<close>

theorem C5_unrecognized_mode_divides_by_zero:
  fixes sample :: "'a::linorder list"
  assumes "m \<noteq> Byte" "m \<noteq> Word"
  shows "NumExactCodes m = 0 \<and>
    (sample \<noteq> [] \<longrightarrow>
       quo (int (length sample)) (NumExactCodes m) = Inl DivideByZero \<and>
       NewDict z m sample = Inl DivideByZero)"
proof -
  from assms have "NumExactCodes m = 0"
    by (simp add: NumExactCodes_def)
  moreover have "quo (int (length sample)) 0 = Inl DivideByZero"
    by (simp add: quo_def)
  moreover have "NewDict z m sample = Inl DivideByZero" if "sample \<noteq> []"
    using assms that by (rule NewDict_invalid_mode)
  ultimately show ?thesis by simp
qed

theorem C5_unrecognized_mode_divides_by_zero_witness:
  "(2::Mode) \<noteq> Byte \<and> (2::Mode) \<noteq> Word \<and> [7::int] \<noteq> [] \<and> NumExactCodes 2 = 0 \<and>
   quo (int (length [7::int])) (NumExactCodes 2) = Inl DivideByZero \<and>
   NewDict 0 2 [7::int] = Inl DivideByZero"
proof -
  have a: "(2::Mode) \<noteq> Byte" and b: "(2::Mode) \<noteq> Word"
    by (simp_all add: Byte_def Word_def)
  from C5_unrecognized_mode_divides_by_zero [OF a b, of "[7]" 0] a b show ?thesis
    by simp
qed

text \<open>
  \<^bold>\<open>C6.\<close>  Take any segment of a run of \<open>assignCodesWithStep\<close>, the \<open>i\<close>-th one, that
  closes with \<open>lastIdx\<close> after having accumulated at least one cluster, that is the
  clusters \<open>firstIdx, ..., lastIdx - 1\<close>.  Then the next segment, if there is one, begins
  at \<open>lastIdx + 1\<close>; index \<open>lastIdx\<close> belongs to no segment and is never the index whose
  value a segment emits; and when \<open>lastIdx\<close> is the index of a cluster and the cluster
  values are pairwise different (as those of \<open>clusters\<close> on a sorted sample are), the
  value of that cluster is not among the representatives returned.  Every segment of a
  run with a positive \<open>codestep\<close> has accumulated at least one cluster
  (\<open>segments_progress\<close>).
\<close>

theorem C6_cluster_after_segment_skipped:
  assumes "i < length (segments codestep clu 0)"
    and "segments codestep clu 0 ! i = (firstIdx, lastIdx, idxWithMaxVal)"
    and "firstIdx < lastIdx"
  shows "(Suc i < length (segments codestep clu 0) \<longrightarrow>
      fst (segments codestep clu 0 ! Suc i) = lastIdx + 1) \<and>
    (\<forall>(f, l, m) \<in> set (segments codestep clu 0). m \<noteq> lastIdx \<and> \<not> (f \<le> lastIdx \<and> lastIdx < l)) \<and>
    (lastIdx < length clu \<longrightarrow> distinct (map value_c clu) \<longrightarrow>
      value_c (clu ! lastIdx) \<notin> set (assignCodesWithStep codestep clu))"
proof -
  let ?segs = "segments codestep clu 0"
  let ?rest = "segments codestep clu (lastIdx + 1)"
  from segments_nth_split [OF assms(1,2)]
  have split: "?segs = take i ?segs @ (firstIdx, lastIdx, idxWithMaxVal) # ?rest"
    and before: "\<forall>(f', l', m') \<in> set (take i ?segs). l' < firstIdx"
    by simp_all
  from assms(1) have len: "length (take i ?segs) = i" by simp
  have nxt: "fst (?segs ! Suc i) = lastIdx + 1" if "Suc i < length ?segs"
  proof -
    from that split len have ne: "?rest \<noteq> []"
      by (metis Suc_lessI length_append_singleton less_irrefl_nat append_Nil2 length_append list.size(4) that)
    have "?segs ! Suc i = (take i ?segs @ (firstIdx, lastIdx, idxWithMaxVal) # ?rest) ! Suc i"
      using split by simp
    also have "\<dots> = ?rest ! 0"
      using len by (simp add: nth_append)
    also have "\<dots> = hd ?rest"
      using ne by (simp add: hd_conv_nth)
    finally show ?thesis
      using segments_hd [OF ne] by simp
  qed
  have skip: "m \<noteq> lastIdx \<and> \<not> (f \<le> lastIdx \<and> lastIdx < l)" if "(f, l, m) \<in> set ?segs" for f l m
  proof -
    from that split consider (pre) "(f, l, m) \<in> set (take i ?segs)"
      | (self) "(f, l, m) = (firstIdx, lastIdx, idxWithMaxVal)"
      | (post) "(f, l, m) \<in> set ?rest"
      by (metis Un_iff set_append set_ConsD)
    then show ?thesis
    proof cases
      case pre
      with before have "l < firstIdx" by auto
      moreover from segments_bounds [OF that] have "m \<le> l" by simp
      ultimately show ?thesis using assms(3) by simp
    next
      case self
      with segments_bounds [OF that] assms(3) show ?thesis by auto
    next
      case post
      from segments_bounds [OF post] show ?thesis by simp
    qed
  qed
  have val: "value_c (clu ! lastIdx) \<notin> set (assignCodesWithStep codestep clu)"
    if lt: "lastIdx < length clu" and dist: "distinct (map value_c clu)"
  proof
    assume "value_c (clu ! lastIdx) \<in> set (assignCodesWithStep codestep clu)"
    then obtain f l m where t: "(f, l, m) \<in> set ?segs"
      and eq: "value_c (clu ! lastIdx) = value_c (clu ! m)"
      by (auto simp: assignCodesWithStep_def assign_loop_segments)
    from segments_bounds [OF t] have m: "m < length clu" by simp
    from dist lt m have "(map value_c clu ! lastIdx = map value_c clu ! m) = (lastIdx = m)"
      by (intro nth_eq_iff_index_eq) simp_all
    with eq lt m have "lastIdx = m" by simp
    with skip [OF t] show False by simp
  qed
  from nxt skip val show ?thesis by blast
qed

theorem C6_cluster_after_segment_skipped_witness:
  "segments 2 (clusters [1, 1, 2, 3, 3, 3, 4, 5::int]) 0 = [(0, 1, 0), (2, 3, 2), (4, 5, 4)] \<and>
   assignCodesWithStep 2 (clusters [1, 1, 2, 3, 3, 3, 4, 5::int]) = [1, 3, 5] \<and>
   fst (segments 2 (clusters [1, 1, 2, 3, 3, 3, 4, 5::int]) 0 ! Suc 0) = 1 + 1 \<and>
   value_c (clusters [1, 1, 2, 3, 3, 3, 4, 5::int] ! 1) = 2 \<and>
   value_c (clusters [1, 1, 2, 3, 3, 3, 4, 5::int] ! 1)
     \<notin> set (assignCodesWithStep 2 (clusters [1, 1, 2, 3, 3, 3, 4, 5::int]))"
proof -
  let ?clu = "clusters [1, 1, 2, 3, 3, 3, 4, 5::int]"
  have segs: "segments 2 ?clu 0 = [(0, 1, 0), (2, 3, 2), (4, 5, 4)]"
    by code_simp
  have out: "assignCodesWithStep 2 ?clu = [1, 3, 5]"
    by code_simp
  have v: "value_c (?clu ! 1) = 2" and lt: "1 < length ?clu" and dist: "distinct (map value_c ?clu)"
    by code_simp+
  have a: "0 < length (segments 2 ?clu 0)" and b: "segments 2 ?clu 0 ! 0 = (0, 1, 0)"
    and c: "Suc 0 < length (segments 2 ?clu 0)"
    unfolding segs by simp_all
  from C6_cluster_after_segment_skipped [OF a b] c lt dist
  have "fst (segments 2 ?clu 0 ! Suc 0) = 1 + 1"
    and "value_c (?clu ! 1) \<notin> set (assignCodesWithStep 2 ?clu)"
    by simp_all
  with segs out v show ?thesis by blast
qed

text \<open>
  \<^bold>\<open>C7.\<close>  For a valid mode and a non-empty sample with at most as many distinct
  values as the mode's exact-code budget, construction returns the dictionary whose
  representatives are the distinct sample values in ascending order; the value at
  position \<open>i\<close> (from 0) encodes to \<open>2 * (i + 1)\<close>, so the codes are 2, 4, 6, ..., and
  every sample value encodes to an exact code.
\<close>

theorem C7_one_exact_code_per_distinct_value:
  fixes sample :: "'a::linorder list"
  assumes "m = Byte \<or> m = Word" "sample \<noteq> []" "int (card (set sample)) \<le> NumExactCodes m"
  shows "\<exists>d. NewDict z m sample = Inr d \<and>
    codes d = sorted_list_of_set (set sample) \<and>
    (\<forall>i<length (codes d). unat (Encode d (codes d ! i)) = 2 * (i + 1)) \<and>
    (\<forall>v\<in>set sample. IsExact (Encode d v))"
proof -
  let ?d = "\<lparr>mode = m, codes = sorted_list_of_set (set sample)\<rparr>"
  from assms(2,3) have d: "NewDict z m sample = Inr ?d"
    by (simp add: NewDict_nonempty)
  note st = NewDict_strict_sorted [OF d] and len = NewDict_length_any [OF d]
  have "unat (Encode ?d (codes ?d ! i)) = 2 * (i + 1)" if "i < length (codes ?d)" for i
    using st len that by (rule Encode_nth)
  moreover have "IsExact (Encode ?d v)" if "v \<in> set sample" for v
    using that by (simp add: Encode_exact_iff [OF st len])
  ultimately show ?thesis using d by auto
qed

theorem C7_one_exact_code_per_distinct_value_witness:
  "(Byte = Byte \<or> Byte = Word) \<and> [3, 1, 1, 2, 3, 3::int] \<noteq> [] \<and>
   int (card (set [3, 1, 1, 2, 3, 3::int])) \<le> NumExactCodes Byte \<and>
   (\<exists>d. NewDict 0 Byte [3, 1, 1, 2, 3, 3::int] = Inr d \<and>
      codes d = sorted_list_of_set (set [3, 1, 1, 2, 3, 3]) \<and>
      (\<forall>i<length (codes d). unat (Encode d (codes d ! i)) = 2 * (i + 1)) \<and>
      (\<forall>v\<in>set [3, 1, 1, 2, 3, 3]. IsExact (Encode d v)))"
proof -
  have a: "Byte = Byte \<or> Byte = Word" and b: "[3, 1, 1, 2, 3, 3::int] \<noteq> []"
    by simp_all
  have c: "int (card (set [3, 1, 1, 2, 3, 3::int])) \<le> NumExactCodes Byte"
    by code_simp
  from C7_one_exact_code_per_distinct_value [OF a b c, of 0] a b c show ?thesis
    by blast
qed

text \<open>
  \<^bold>\<open>C8.\<close>  Construction from an empty sample returns a dictionary (no error), for
  every mode and so for every valid one; its \<open>Len\<close> is 1 and its single representative
  is the zero value of the value type.  The zero value then encodes to 2, every lesser
  value to 1 and every greater value to 3.
\<close>

theorem C8_empty_sample:
  fixes z :: "'a::linorder"
  shows "\<exists>d. NewDict z m [] = Inr d \<and> Len d = 1 \<and> codes d = [z] \<and> Encode d z = 2 \<and>
    (\<forall>v. v < z \<longrightarrow> Encode d v = 1) \<and> (\<forall>v. z < v \<longrightarrow> Encode d v = 3)"
proof -
  let ?d = "\<lparr>mode = m, codes = [z]\<rparr>"
  have "NewDict z m [] = Inr ?d" by (rule NewDict_empty)
  moreover have "Len ?d = 1" by (simp add: Len_def)
  moreover have "Encode ?d z = 2" by (simp add: Encode_singleton)
  moreover have "Encode ?d v = 1" if "v < z" for v
    using that by (simp add: Encode_singleton)
  moreover have "Encode ?d v = 3" if "z < v" for v
    using that by (auto simp: Encode_singleton)
  ultimately show ?thesis by auto
qed

theorem C8_empty_sample_witness:
  "\<exists>d. NewDict (0::int) Byte [] = Inr d \<and> Len d = 1 \<and> codes d = [0] \<and> Encode d 0 = 2 \<and>
     ((-5::int) < 0 \<and> Encode d (-5) = 1) \<and> ((0::int) < 9 \<and> Encode d 9 = 3)"
  using C8_empty_sample [of 0 Byte] by auto

text \<open>
  \<^bold>\<open>C9.\<close>  \<open>NewDict\<close> does not mutate the caller's sample: for every mode, whether
  construction returns a dictionary or panics, the array of the sample slice holds the
  same elements in the same positions afterwards, as does every other array the store
  held before.  The only array written is the private copy, allocated at a fresh
  address and sorted there; and the dictionary built is the one \<open>NewDict\<close> computes
  from the sample's elements.
\<close>

theorem C9_sample_not_mutated:
  fixes st :: "'a::linorder store"
  assumes "sample < length st" "NewDict_store z m st sample = (st', r)"
  shows "st' ! sample = st ! sample \<and> (\<forall>a<length st. st' ! a = st ! a) \<and>
    st' = (if st ! sample = [] then st else st @ [sort (st ! sample)]) \<and>
    r = NewDict z m (st ! sample)"
proof -
  from assms have st': "st' = (if st ! sample = [] then st else st @ [sort (st ! sample)])"
    and r: "r = NewDict z m (st ! sample)"
    by (simp_all add: NewDict_store_eq)
  from st' have "st' ! a = st ! a" if "a < length st" for a
    using that by (simp add: nth_append)
  with assms(1) st' r show ?thesis by blast
qed

theorem C9_sample_not_mutated_witness:
  "(0::nat) < length [[3, 1, 2::int]] \<and>
   NewDict_store 0 Byte [[3, 1, 2::int]] 0 =
     ([[3, 1, 2], [1, 2, 3]], Inr \<lparr>mode = Byte, codes = [1, 2, 3]\<rparr>) \<and>
   [[3, 1, 2], [1, 2, 3::int]] ! 0 = [[3, 1, 2]] ! 0"
proof -
  have a: "(0::nat) < length [[3, 1, 2::int]]" by simp
  have b: "NewDict_store 0 Byte [[3, 1, 2::int]] 0 =
     ([[3, 1, 2], [1, 2, 3]], Inr \<lparr>mode = Byte, codes = [1, 2, 3]\<rparr>)"
    by code_simp
  from C9_sample_not_mutated [OF a b] a b show ?thesis by blast
qed

text \<open>
  \<^bold>\<open>C10.\<close>  For a valid mode and a non-empty sample, construction returns a dictionary
  all of whose representative values occur in the sample, on the direct and on the
  adaptive path.
\<close>

theorem C10_codes_drawn_from_sample:
  fixes sample :: "'a::linorder list"
  assumes "m = Byte \<or> m = Word" "sample \<noteq> []"
  shows "\<exists>d. NewDict z m sample = Inr d \<and> set (codes d) \<subseteq> set sample"
proof -
  from NewDict_valid_ok [OF assms(1)] obtain d where d: "NewDict z m sample = Inr d" ..
  from NewDict_subset [OF d assms(2)] d show ?thesis by blast
qed

theorem C10_codes_drawn_from_sample_witness:
  "(Byte = Byte \<or> Byte = Word) \<and> [4, 9, 4::int] \<noteq> [] \<and>
   (\<exists>d. NewDict 0 Byte [4, 9, 4::int] = Inr d \<and> set (codes d) \<subseteq> set [4, 9, 4])"
  using C10_codes_drawn_from_sample [of Byte "[4, 9, 4]" 0] by simp

end
